theory Spec2Isabelle
  imports
    Complex_Main
    "HOL-Library.Word"
    "HOL-Library.Char_ord"
    "HOL-Library.List_Lexorder"
    "HOL-Library.Log_Nat"
begin

section \<open>FlameGraphFilter: the folded-stack filter of \<^verbatim>\<open>flamegraph_filter.cpp\<close>\<close>

text \<open>
  The program reads folded stack samples (\<^verbatim>\<open>frame;frame;...;frame count\<close>), groups them by
  their lowest frame, keeps the groups whose share of all samples exceeds a cutoff (and whose
  lowest frame matches one of the regular expressions given, if any), cuts the kept stacks
  down to a number of frames and writes them out.

  Conventions of the embedding.
  \<^item> A \<^verbatim>\<open>std::string\<close> is a \<^typ>\<open>string\<close>; a \<^verbatim>\<open>char\<close> is compared as an unsigned byte, as
    \<^verbatim>\<open>std::char_traits<char>\<close> does, which is the order of \<^verbatim>\<open>Char_ord\<close>; strings are
    ordered lexicographically.
  \<^item> A position of type \<^verbatim>\<open>std::string::size_type\<close> is a \<^typ>\<open>nat option\<close>: \<open>Some i\<close> is the
    index \<open>i\<close> and \<open>None\<close> is \<^verbatim>\<open>npos\<close>, the largest value of the type. Strings are shorter
    than \<^verbatim>\<open>npos\<close>, so every arithmetic step the source takes on positions is written out
    with its wrap-around: \<^verbatim>\<open>npos + 1\<close> is \<open>0\<close>, \<^verbatim>\<open>0 - 1\<close> is \<^verbatim>\<open>npos\<close>.
  \<^item> A sample count of type \<^verbatim>\<open>size_t\<close> is a \<^typ>\<open>64 word\<close>.
  \<^item> An exception or a call whose behaviour the language leaves undefined is a value of
    \<open>error\<close>, returned on the left of a sum.
\<close>

subsection \<open>Errors\<close>

datatype error =
    OutOfRange            \<comment> \<open>\<^verbatim>\<open>std::out_of_range\<close>, thrown by \<^verbatim>\<open>substr\<close>\<close>
  | RegexError            \<comment> \<open>\<^verbatim>\<open>std::regex_error\<close>, thrown by the constructor of \<^verbatim>\<open>std::regex\<close>\<close>
  | CouldNotOpen          \<comment> \<open>a file could not be opened: message and \<^verbatim>\<open>std::exit(1)\<close>\<close>
  | UndefinedBehaviour    \<comment> \<open>\<^verbatim>\<open>atoi\<close> out of the range of \<^verbatim>\<open>int\<close>, \<^verbatim>\<open>v[0]\<close> on an empty vector\<close>

text \<open>Sequencing of computations that may fail: the first failure is the result.\<close>

definition bind_result :: "error + 'a \<Rightarrow> ('a \<Rightarrow> error + 'b) \<Rightarrow> error + 'b" where
  "bind_result r f = (case r of Inl e \<Rightarrow> Inl e | Inr x \<Rightarrow> f x)"

fun map_result :: "('a \<Rightarrow> error + 'b) \<Rightarrow> 'a list \<Rightarrow> error + 'b list" where
  "map_result f [] = Inr []"
| "map_result f (x # xs) =
     bind_result (f x) (\<lambda>y. bind_result (map_result f xs) (\<lambda>ys. Inr (y # ys)))"

subsection \<open>The string operations of the standard library that the program uses\<close>

type_synonym size_type = "nat option"

text \<open>\<^verbatim>\<open>s.find_last_of(c)\<close>: the index of the last occurrence of \<open>c\<close>, or \<^verbatim>\<open>npos\<close>.\<close>

fun find_last_of :: "string \<Rightarrow> char \<Rightarrow> size_type" where
  "find_last_of [] c = None"
| "find_last_of (x # xs) c =
     (case find_last_of xs c of
        Some i \<Rightarrow> Some (Suc i)
      | None \<Rightarrow> if x = c then Some 0 else None)"

text \<open>
  \<^verbatim>\<open>s.rfind(c, pos)\<close>: the index of the last occurrence of \<open>c\<close> at an index that is at most
  \<open>pos\<close>, or \<^verbatim>\<open>npos\<close>. With \<open>pos\<close> = \<^verbatim>\<open>npos\<close> the whole string is searched.
\<close>

fun rfind :: "string \<Rightarrow> char \<Rightarrow> size_type \<Rightarrow> size_type" where
  "rfind s c None = find_last_of s c"
| "rfind s c (Some pos) = find_last_of (take (Suc pos) s) c"

text \<open>
  \<^verbatim>\<open>s.substr(pos, n)\<close> throws \<^verbatim>\<open>std::out_of_range\<close> when \<open>pos\<close> exceeds the size, and
  otherwise returns the characters from \<open>pos\<close> on, at most \<open>n\<close> of them. A position of
  \<^verbatim>\<open>npos\<close> always exceeds the size; a length of \<^verbatim>\<open>npos\<close> (the default) takes the whole rest.
\<close>

fun substr :: "string \<Rightarrow> size_type \<Rightarrow> size_type \<Rightarrow> error + string" where
  "substr s None n = Inl OutOfRange"
| "substr s (Some pos) n =
     (if length s < pos then Inl OutOfRange
      else Inr (case n of None \<Rightarrow> drop pos s | Some k \<Rightarrow> take k (drop pos s)))"

text \<open>
  Unsigned subtraction of positions, \<^verbatim>\<open>a - b\<close>, for \<open>b\<close> an index. When \<open>a\<close> is \<^verbatim>\<open>npos\<close>, or
  when \<open>a\<close> is below \<open>b\<close> and the difference wraps around, the result is at least the size
  of any string less \<open>b\<close>; as a length given to \<^verbatim>\<open>substr\<close> at position \<open>b\<close> it then means the whole rest, which is how
  \<open>None\<close> is read there.
\<close>

fun length_between :: "size_type \<Rightarrow> nat \<Rightarrow> size_type" where
  "length_between None b = None"
| "length_between (Some a) b = (if b \<le> a then Some (a - b) else None)"

text \<open>\<^verbatim>\<open>p + 1\<close> on positions: \<^verbatim>\<open>npos + 1\<close> wraps to \<open>0\<close>.\<close>

fun plus_one :: "size_type \<Rightarrow> nat" where
  "plus_one None = 0"
| "plus_one (Some i) = Suc i"

text \<open>\<^verbatim>\<open>p - 1\<close> on an index: \<^verbatim>\<open>0 - 1\<close> wraps to \<^verbatim>\<open>npos\<close>.\<close>

fun minus_one :: "nat \<Rightarrow> size_type" where
  "minus_one 0 = None"
| "minus_one (Suc i) = Some i"

subsection \<open>The line parser\<close>

text \<open>
  \<^verbatim>\<open>get_lowest_stack\<close>: the text after the last \<^verbatim>\<open>;\<close> and before the last space.
\<close>

definition get_lowest_stack :: "string \<Rightarrow> error + string" where
  "get_lowest_stack full_stack_and_sample_count =
     (let location_of_last_semicolon =
            plus_one (find_last_of full_stack_and_sample_count CHR '';'')
      in substr full_stack_and_sample_count (Some location_of_last_semicolon)
           (length_between (find_last_of full_stack_and_sample_count CHR '' '')
              location_of_last_semicolon))"

text \<open>
  \<^verbatim>\<open>std::atoi\<close> on the C string of its argument (the characters before the first NUL): it
  skips white space (\<^verbatim>\<open>isspace\<close> in the "C" locale), takes an optional sign and then the
  longest run of decimal digits. When there is no digit the result is \<open>0\<close>; when the value
  is outside the range of a 32-bit \<^verbatim>\<open>int\<close> the behaviour is undefined.
\<close>

definition c_str :: "string \<Rightarrow> string" where
  "c_str s = takeWhile (\<lambda>c. c \<noteq> CHR 0x00) s"

definition isspace :: "char \<Rightarrow> bool" where
  "isspace c \<longleftrightarrow>
     c = CHR '' '' \<or> c = CHR 0x09 \<or> c = CHR 0x0A \<or> c = CHR 0x0B \<or> c = CHR 0x0C \<or> c = CHR 0x0D"

definition isdigit :: "char \<Rightarrow> bool" where
  "isdigit c \<longleftrightarrow> CHR ''0'' \<le> c \<and> c \<le> CHR ''9''"

definition digit_value :: "char \<Rightarrow> int" where
  "digit_value c = int (of_char c) - 48"

definition decimal_value :: "string \<Rightarrow> int" where
  "decimal_value digits = foldl (\<lambda>acc c. 10 * acc + digit_value c) 0 digits"

definition strip_sign :: "string \<Rightarrow> bool \<times> string" where
  "strip_sign s =
     (case s of
        [] \<Rightarrow> (False, s)
      | c # rest \<Rightarrow>
          if c = CHR ''-'' then (True, rest)
          else if c = CHR ''+'' then (False, rest)
          else (False, s))"

definition atoi :: "string \<Rightarrow> error + int" where
  "atoi nptr =
     (let (negative, rest) = strip_sign (dropWhile isspace nptr);
          magnitude = decimal_value (takeWhile isdigit rest);
          v = (if negative then - magnitude else magnitude)
      in if - (2 ^ 31) \<le> v \<and> v < 2 ^ 31 then Inr v else Inl UndefinedBehaviour)"

text \<open>
  \<^verbatim>\<open>get_sample_count\<close>: \<^verbatim>\<open>atoi\<close> of the text from the last space on, converted from
  \<^verbatim>\<open>int\<close> to \<^verbatim>\<open>size_t\<close> (modulo \<open>2 ^ 64\<close>). Without a space the position given to
  \<^verbatim>\<open>substr\<close> is \<^verbatim>\<open>npos\<close>.
\<close>

definition get_sample_count :: "string \<Rightarrow> error + 64 word" where
  "get_sample_count full_stack_and_sample_count =
     bind_result
       (substr full_stack_and_sample_count
          (find_last_of full_stack_and_sample_count CHR '' '') None)
       (\<lambda>token. bind_result (atoi (c_str token)) (\<lambda>v. Inr (word_of_int v)))"

subsection \<open>The stack aggregator\<close>

type_synonym stack_group = "64 word \<times> string list"

text \<open>
  The \<^verbatim>\<open>std::map\<close> from the lowest frame to its group is a list of entries in strictly
  increasing order of the keys, the order in which the map is iterated.
\<close>

type_synonym stack_map = "(string \<times> stack_group) list"

text \<open>\<^verbatim>\<open>stack_map[key] = value\<close>: the entry is replaced, or inserted at its place.\<close>

fun map_assign :: "string \<Rightarrow> stack_group \<Rightarrow> stack_map \<Rightarrow> stack_map" where
  "map_assign key v [] = [(key, v)]"
| "map_assign key v (entry # rest) =
     (if key < fst entry then (key, v) # entry # rest
      else if key = fst entry then (key, v) # rest
      else entry # map_assign key v rest)"

text \<open>The body of the loop over the lines of the file.\<close>

definition add_line :: "stack_map \<Rightarrow> string \<Rightarrow> error + stack_map" where
  "add_line stack_map line =
     bind_result (get_lowest_stack line) (\<lambda>lowest_stack.
       case map_of stack_map lowest_stack of
         Some current_stack \<Rightarrow>
           bind_result (get_sample_count line) (\<lambda>n.
             Inr (map_assign lowest_stack
                    (fst current_stack + n, snd current_stack @ [line]) stack_map))
       | None \<Rightarrow>
           bind_result (get_sample_count line) (\<lambda>n.
             Inr (map_assign lowest_stack (n, [line]) stack_map)))"

fun read_lines :: "stack_map \<Rightarrow> string list \<Rightarrow> error + stack_map" where
  "read_lines stack_map [] = Inr stack_map"
| "read_lines stack_map (line # rest) =
     bind_result (add_line stack_map line) (\<lambda>m. read_lines m rest)"

text \<open>
  \<^verbatim>\<open>build_stack_map\<close>: the file is given by its lines, or \<open>None\<close> when it cannot be
  opened.
\<close>

definition build_stack_map :: "string list option \<Rightarrow> error + stack_map" where
  "build_stack_map file =
     (case file of None \<Rightarrow> Inl CouldNotOpen | Some lines \<Rightarrow> read_lines [] lines)"

subsection \<open>Double precision arithmetic\<close>

text \<open>
  The values of an IEEE 754 binary64 \<^verbatim>\<open>double\<close>: the finite ones by their exact rational
  value, the two infinities, and not-a-number. The sign of a zero is left out: the program
  only compares doubles (where the two zeros are equal) and divides by a double converted
  from an unsigned integer (a positive zero).
\<close>

datatype double = Finite rat | PInf | NInf | NaN

text \<open>\<open>binade a\<close> is the exponent \<open>e\<close> with \<open>2\<^sup>e \<le> a < 2\<^sup>e\<^sup>+\<^sup>1\<close>, for a positive \<open>a\<close>.\<close>

definition binade :: "rat \<Rightarrow> int" where
  "binade a =
     (let d = bitlen (fst (quotient_of a)) - bitlen (snd (quotient_of a))
      in if 2 powi d \<le> a then d else d - 1)"

text \<open>Rounding to the nearest integer, a tie to the even one.\<close>

definition round_half_even :: "rat \<Rightarrow> int" where
  "round_half_even x =
     (let f = \<lfloor>x\<rfloor>; r = x - of_int f
      in if r < 1 / 2 then f
         else if 1 / 2 < r then f + 1
         else if even f then f else f + 1)"

text \<open>
  A positive \<open>a\<close> rounded to 53 significant bits, or to a multiple of \<open>2\<^sup>-\<^sup>1\<^sup>0\<^sup>7\<^sup>4\<close> in the
  subnormal range.
\<close>

definition round_magnitude :: "rat \<Rightarrow> rat" where
  "round_magnitude a =
     (let ulp = 2 powi (max (binade a) (- 1022) - 52)
      in of_int (round_half_even (a / ulp)) * ulp)"

text \<open>
  The rounding of every operation (round to nearest, ties to even): the result overflows to
  an infinity when the exponent of the rounded magnitude exceeds \<open>1023\<close>, that is when the
  rounded magnitude reaches \<open>2\<^sup>1\<^sup>0\<^sup>2\<^sup>4\<close>.
\<close>

definition round_to_double :: "rat \<Rightarrow> double" where
  "round_to_double x =
     (if x = 0 then Finite 0
      else let r = round_magnitude \<bar>x\<bar>
           in if 1023 < binade r then (if 0 < x then PInf else NInf)
              else Finite (if 0 < x then r else - r))"

text \<open>\<^verbatim>\<open>static_cast<double>\<close> of a \<^verbatim>\<open>size_t\<close>.\<close>

definition to_double :: "64 word \<Rightarrow> double" where
  "to_double n = round_to_double (of_nat (unat n))"

text \<open>Division; a zero divisor is a positive zero.\<close>

fun double_div :: "double \<Rightarrow> double \<Rightarrow> double" where
  "double_div (Finite a) (Finite b) =
     (if b = 0 then (if a = 0 then NaN else if 0 < a then PInf else NInf)
      else round_to_double (a / b))"
| "double_div (Finite a) PInf = Finite 0"
| "double_div (Finite a) NInf = Finite 0"
| "double_div PInf (Finite b) = (if 0 \<le> b then PInf else NInf)"
| "double_div NInf (Finite b) = (if 0 \<le> b then NInf else PInf)"
| "double_div x y = NaN"

fun double_mul :: "double \<Rightarrow> double \<Rightarrow> double" where
  "double_mul (Finite a) (Finite b) = round_to_double (a * b)"
| "double_mul (Finite a) PInf = (if a = 0 then NaN else if 0 < a then PInf else NInf)"
| "double_mul (Finite a) NInf = (if a = 0 then NaN else if 0 < a then NInf else PInf)"
| "double_mul PInf (Finite b) = (if b = 0 then NaN else if 0 < b then PInf else NInf)"
| "double_mul NInf (Finite b) = (if b = 0 then NaN else if 0 < b then NInf else PInf)"
| "double_mul PInf PInf = PInf"
| "double_mul PInf NInf = NInf"
| "double_mul NInf PInf = NInf"
| "double_mul NInf NInf = PInf"
| "double_mul x y = NaN"

text \<open>The comparison \<^verbatim>\<open>x > y\<close>: false when either side is not a number.\<close>

fun double_gt :: "double \<Rightarrow> double \<Rightarrow> bool" where
  "double_gt (Finite a) (Finite b) = (b < a)"
| "double_gt (Finite a) NInf = True"
| "double_gt PInf (Finite b) = True"
| "double_gt PInf NInf = True"
| "double_gt x y = False"

text \<open>The literal \<^verbatim>\<open>0.01\<close>.\<close>

definition literal_0_01 :: double where
  "literal_0_01 = round_to_double (1 / 100)"

subsection \<open>The significance filter\<close>

text \<open>
  \<^verbatim>\<open>std::regex\<close> is a parameter of the model: \<open>regex_compile\<close> is the constructor, which
  gives \<open>None\<close> where it throws \<^verbatim>\<open>std::regex_error\<close>, and \<open>regex_match\<close> is
  \<^verbatim>\<open>std::regex_match\<close>, the match of a whole string.
\<close>

record 'r regex_library =
  regex_compile :: "string \<Rightarrow> 'r option"
  regex_match :: "'r \<Rightarrow> string \<Rightarrow> bool"

text \<open>The sum of the counts of all groups, in \<^verbatim>\<open>size_t\<close>.\<close>

definition total_samples_of :: "stack_map \<Rightarrow> 64 word" where
  "total_samples_of stack_map = foldl (\<lambda>state element. state + fst (snd element)) 0 stack_map"

text \<open>The test of the outer \<^verbatim>\<open>if\<close>.\<close>

definition above_cutoff :: "64 word \<Rightarrow> 64 word \<Rightarrow> double \<Rightarrow> bool" where
  "above_cutoff n total_samples cutoff_percentage =
     double_gt (double_div (to_double n) (to_double total_samples))
       (double_mul literal_0_01 cutoff_percentage)"

text \<open>
  The loop over the regular expressions: whether the group is pushed. An expression is
  compiled when the loop reaches it.
\<close>

fun matches_any :: "'r regex_library \<Rightarrow> string \<Rightarrow> string list \<Rightarrow> error + bool" where
  "matches_any lib stack_frame [] = Inr False"
| "matches_any lib stack_frame (regex_string # rest) =
     (case regex_compile lib regex_string of
        None \<Rightarrow> Inl RegexError
      | Some expression \<Rightarrow>
          if regex_match lib expression stack_frame then Inr True
          else matches_any lib stack_frame rest)"

text \<open>The body of the \<^verbatim>\<open>for_each\<close>: whether the group of the entry \<open>t\<close> is pushed.\<close>

definition keeps :: "'r regex_library \<Rightarrow> 64 word \<Rightarrow> double \<Rightarrow> string list \<Rightarrow>
    string \<times> stack_group \<Rightarrow> error + bool" where
  "keeps lib total_samples cutoff_percentage regexes_to_show t =
     (if above_cutoff (fst (snd t)) total_samples cutoff_percentage then
        if regexes_to_show = [] then Inr True
        else (case snd (snd t) of
                [] \<Rightarrow> Inl UndefinedBehaviour
              | first # others \<Rightarrow>
                  bind_result (get_lowest_stack first) (\<lambda>stack_frame.
                    matches_any lib stack_frame regexes_to_show))
      else Inr False)"

fun filter_loop :: "(string \<times> stack_group \<Rightarrow> error + bool) \<Rightarrow> stack_map \<Rightarrow>
    error + stack_group list" where
  "filter_loop keep [] = Inr []"
| "filter_loop keep (t # rest) =
     bind_result (keep t) (\<lambda>pushed.
       bind_result (filter_loop keep rest) (\<lambda>filtered_stacks.
         Inr (if pushed then snd t # filtered_stacks else filtered_stacks)))"

definition filter_stack :: "'r regex_library \<Rightarrow> stack_map \<Rightarrow> double \<Rightarrow> string list \<Rightarrow>
    error + stack_group list" where
  "filter_stack lib stack_map cutoff_percentage regexes_to_show =
     filter_loop (keeps lib (total_samples_of stack_map) cutoff_percentage regexes_to_show)
       stack_map"

subsection \<open>The depth truncator\<close>

text \<open>
  The inner loop of \<^verbatim>\<open>shrink_to_stack_limit\<close>; the first argument counts the rounds that
  are left, \<^verbatim>\<open>stack_limit - i\<close>.
\<close>

fun shrink_loop :: "nat \<Rightarrow> string \<Rightarrow> size_type \<Rightarrow> size_type" where
  "shrink_loop 0 stack current_position = current_position"
| "shrink_loop (Suc n) stack None = None"
| "shrink_loop (Suc n) stack (Some p) =
     shrink_loop n stack (rfind stack CHR '';'' (minus_one p))"

definition shrink_stack :: "nat \<Rightarrow> string \<Rightarrow> error + string" where
  "shrink_stack stack_limit stack =
     (case shrink_loop stack_limit stack (Some (length stack)) of
        None \<Rightarrow> Inr stack
      | Some current_position \<Rightarrow> substr stack (Some (current_position + 1)) None)"

definition shrink_to_stack_limit :: "stack_group list \<Rightarrow> nat \<Rightarrow> error + stack_group list" where
  "shrink_to_stack_limit stacks_map stack_limit =
     (if stack_limit = 0 then Inr stacks_map
      else map_result
             (\<lambda>stack_list. bind_result (map_result (shrink_stack stack_limit) (snd stack_list))
                              (\<lambda>stacks. Inr (fst stack_list, stacks)))
             stacks_map)"

subsection \<open>The writer and the whole run\<close>

text \<open>
  \<^verbatim>\<open>write_filtered_stack_to_file\<close>: the lines written, each followed by a newline; the
  second argument says whether the output file can be opened.
\<close>

definition write_filtered_stack_to_file :: "stack_group list \<Rightarrow> bool \<Rightarrow> error + string list" where
  "write_filtered_stack_to_file stacks writable =
     (if \<not> writable then Inl CouldNotOpen else Inr (concat (map snd stacks)))"

text \<open>
  The call in \<^verbatim>\<open>main\<close>, with the command line already parsed. The result is the content
  of the output file, or the error that ended the run; the output file is touched by the
  last stage only.
\<close>

definition run :: "'r regex_library \<Rightarrow> string list option \<Rightarrow> bool \<Rightarrow> double \<Rightarrow> nat \<Rightarrow>
    string list \<Rightarrow> error + string list" where
  "run lib input_file writable cutoff_percentage stack_limit regexes_to_show =
     bind_result (build_stack_map input_file) (\<lambda>stack_map.
       bind_result (filter_stack lib stack_map cutoff_percentage regexes_to_show) (\<lambda>filtered.
         bind_result (shrink_to_stack_limit filtered stack_limit) (\<lambda>stacks.
           write_filtered_stack_to_file stacks writable)))"

text \<open>
  The exit status: \<open>0\<close> at the end of \<^verbatim>\<open>main\<close>; \<open>1\<close> from \<^verbatim>\<open>std::exit(1)\<close> and from the
  handler of \<^verbatim>\<open>std::exception\<close>, which catches \<^verbatim>\<open>std::out_of_range\<close> and
  \<^verbatim>\<open>std::regex_error\<close>; nothing is known after undefined behaviour.
\<close>

fun exit_status :: "error + string list \<Rightarrow> nat option" where
  "exit_status (Inr written) = Some 0"
| "exit_status (Inl UndefinedBehaviour) = None"
| "exit_status (Inl e) = Some 1"

subsection \<open>Notions used in the statements\<close>

text \<open>
  \<^verbatim>\<open>get_lowest_stack\<close> never throws, since the position it gives to \<^verbatim>\<open>substr\<close> is within
  the string; \<open>lowest_frame\<close> is its value.
\<close>

definition lowest_frame :: "string \<Rightarrow> string" where
  "lowest_frame s =
     (let location = plus_one (find_last_of s CHR '';'')
      in case length_between (find_last_of s CHR '' '') location of
           None \<Rightarrow> drop location s
         | Some k \<Rightarrow> take k (drop location s))"

text \<open>The count token of a line: the text after its last space.\<close>

definition count_token :: "string \<Rightarrow> string" where
  "count_token line = rev (takeWhile (\<lambda>c. c \<noteq> CHR '' '') (rev line))"

text \<open>
  A token parses as an integer, in the sense of \<^verbatim>\<open>atoi\<close>, when a digit follows its leading
  white space and optional sign; otherwise no conversion can be performed.
\<close>

definition starts_with_number :: "string \<Rightarrow> bool" where
  "starts_with_number token =
     (case snd (strip_sign (dropWhile isspace (c_str token))) of
        [] \<Rightarrow> False
      | c # rest \<Rightarrow> isdigit c)"

text \<open>
  An instance of the regular expression library for the examples. A pattern with an opening
  parenthesis and no closing one does not compile; every other pattern is read literally,
  as \<^verbatim>\<open>std::regex\<close> reads a pattern of letters and digits. The examples use such patterns
  only.
\<close>

definition literal_patterns :: "string regex_library" where
  "literal_patterns =
     \<lparr>regex_compile = (\<lambda>s. if CHR ''('' \<in> set s \<and> CHR '')'' \<notin> set s then None else Some s),
      regex_match = (\<lambda>expression s. expression = s)\<rparr>"

text \<open>The sum of the counts of some lines, in \<^verbatim>\<open>size_t\<close>; an error when a line has no count.\<close>

definition sample_sum :: "string list \<Rightarrow> error + 64 word" where
  "sample_sum lines =
     bind_result (map_result get_sample_count lines) (\<lambda>counts. Inr (sum_list counts))"

text \<open>
  What the aggregator has built from the lines read so far: the keys are the lowest frames of
  the lines, in increasing order, each with the lines of that frame in the order of the file
  and with the sum of their counts.
\<close>

definition aggregates :: "stack_map \<Rightarrow> string list \<Rightarrow> bool" where
  "aggregates stack_map lines \<longleftrightarrow>
     sorted_wrt (<) (map fst stack_map)
     \<and> fst ` set stack_map = lowest_frame ` set lines
     \<and> (\<forall>t\<in>set stack_map.
          snd (snd t) = filter (\<lambda>l. lowest_frame l = fst t) lines
          \<and> sample_sum (snd (snd t)) = Inr (fst (snd t)))"

text \<open>
  What the truncator makes of one line: \<^verbatim>\<open>shrink_stack\<close> never throws when the stack limit is
  positive, and with a limit of zero the lines are not touched.
\<close>

definition cut_line :: "nat \<Rightarrow> string \<Rightarrow> string" where
  "cut_line stack_limit stack =
     (if stack_limit = 0 then stack
      else case shrink_loop stack_limit stack (Some (length stack)) of
             None \<Rightarrow> stack
           | Some current_position \<Rightarrow> drop (Suc current_position) stack)"

section \<open>Properties\<close>

subsection \<open>Failure and the string operations\<close>

lemma bind_result_Inr [simp]: "bind_result (Inr x) f = f x"
  by (simp add: bind_result_def)

lemma bind_result_Inl [simp]: "bind_result (Inl e) f = Inl e"
  by (simp add: bind_result_def)

lemma bind_result_eq_Inr:
  "bind_result r f = Inr y \<longleftrightarrow> (\<exists>x. r = Inr x \<and> f x = Inr y)"
  by (cases r) simp_all

lemma bind_result_eq_Inl:
  "bind_result r f = Inl e \<longleftrightarrow> r = Inl e \<or> (\<exists>x. r = Inr x \<and> f x = Inl e)"
  by (cases r) simp_all

lemma find_last_of_Some:
  "find_last_of s c = Some i \<Longrightarrow> i < length s \<and> s ! i = c \<and> c \<notin> set (drop (Suc i) s)"
proof (induction s arbitrary: i)
  case Nil
  then show ?case by simp
next
  case (Cons x xs)
  show ?case
  proof (cases "find_last_of xs c")
    case None
    with Cons.prems have "x = c" "i = 0" by (auto split: if_splits)
    moreover have "c \<notin> set xs" using None
      by (induction xs) (auto split: option.splits if_splits)
    ultimately show ?thesis by simp
  next
    case (Some j)
    with Cons.prems have "i = Suc j" by simp
    with Cons.IH[OF Some] show ?thesis by simp
  qed
qed

lemma find_last_of_None: "find_last_of s c = None \<longleftrightarrow> c \<notin> set s"
  by (induction s) (auto split: option.splits)

lemma plus_one_find_last_of_le: "plus_one (find_last_of s c) \<le> length s"
  by (cases "find_last_of s c") (auto dest: find_last_of_Some)

lemma get_lowest_stack_total: "get_lowest_stack s = Inr (lowest_frame s)"
  using plus_one_find_last_of_le[of s "CHR '';''"]
  by (simp add: get_lowest_stack_def lowest_frame_def Let_def)

lemma get_sample_count_no_space:
  "CHR '' '' \<notin> set line \<Longrightarrow> get_sample_count line = Inl OutOfRange"
  by (simp add: get_sample_count_def find_last_of_None[THEN iffD2])

lemma drop_last_space:
  "find_last_of line CHR '' '' = Some i \<Longrightarrow> drop i line = CHR '' '' # count_token line"
proof (induction line arbitrary: i)
  case Nil
  then show ?case by simp
next
  case (Cons x xs)
  show ?case
  proof (cases "find_last_of xs CHR '' ''")
    case None
    with Cons.prems have x: "x = CHR '' ''" "i = 0" by (auto split: if_splits)
    from None have "CHR '' '' \<notin> set xs" by (simp add: find_last_of_None)
    then have "takeWhile (\<lambda>c. c \<noteq> CHR '' '') (rev xs @ [x]) = rev xs @ takeWhile (\<lambda>c. c \<noteq> CHR '' '') [x]"
      by (intro takeWhile_append2) auto
    with x show ?thesis by (simp add: count_token_def)
  next
    case (Some j)
    with Cons.prems have i: "i = Suc j" by simp
    from find_last_of_Some[OF Some] have "CHR '' '' \<in> set (rev xs)"
      by (metis nth_mem set_rev)
    then obtain y where "y \<in> set (rev xs)" "\<not> y \<noteq> CHR '' ''" by blast
    then have "takeWhile (\<lambda>c. c \<noteq> CHR '' '') (rev xs @ [x]) = takeWhile (\<lambda>c. c \<noteq> CHR '' '') (rev xs)"
      by (rule takeWhile_append1)
    with Cons.IH[OF Some] i show ?thesis by (simp add: count_token_def)
  qed
qed

lemma atoi_no_number:
  "\<not> starts_with_number token \<Longrightarrow> atoi (c_str token) = Inr 0"
  by (auto simp: starts_with_number_def atoi_def decimal_value_def Let_def split: list.splits prod.splits)

subsection \<open>The line parser\<close>

lemma atoi_leading_space: "atoi (c_str (CHR '' '' # token)) = atoi (c_str token)"
  by (simp add: atoi_def c_str_def isspace_def)

lemma get_sample_count_token:
  assumes "CHR '' '' \<in> set line"
  shows "get_sample_count line =
    bind_result (atoi (c_str (count_token line))) (\<lambda>v. Inr (word_of_int v))"
proof -
  from assms obtain i where i: "find_last_of line CHR '' '' = Some i"
    using find_last_of_None[of line "CHR '' ''"] by (cases "find_last_of line CHR '' ''") auto
  then have "i < length line" by (auto dest: find_last_of_Some)
  with i show ?thesis
    by (simp add: get_sample_count_def drop_last_space[OF i] atoi_leading_space)
qed

lemma atoi_error: "atoi s = Inl e \<Longrightarrow> e = UndefinedBehaviour"
  by (auto simp: atoi_def Let_def split: prod.splits if_splits)

lemma get_sample_count_error:
  "get_sample_count line = Inl e \<Longrightarrow> e = OutOfRange \<or> e = UndefinedBehaviour"
  by (cases "find_last_of line CHR '' ''")
    (auto simp: get_sample_count_def bind_result_eq_Inl dest: atoi_error split: if_splits)

subsection \<open>The stack aggregator\<close>

lemma add_line_unfold:
  "add_line stack_map line =
     bind_result (get_sample_count line) (\<lambda>n.
       Inr (map_assign (lowest_frame line)
              (case map_of stack_map (lowest_frame line) of
                 Some current_stack \<Rightarrow> (fst current_stack + n, snd current_stack @ [line])
               | None \<Rightarrow> (n, [line]))
              stack_map))"
  by (cases "get_sample_count line")
    (simp_all add: add_line_def get_lowest_stack_total split: option.splits)

lemma read_lines_error:
  "read_lines stack_map lines = Inl e \<Longrightarrow> \<exists>l\<in>set lines. get_sample_count l = Inl e"
proof (induction lines arbitrary: stack_map)
  case Nil
  then show ?case by simp
next
  case (Cons line rest)
  then show ?case
    by (cases "get_sample_count line") (auto simp: add_line_unfold)
qed

lemma read_lines_fails:
  "l \<in> set lines \<Longrightarrow> get_sample_count l = Inl e \<Longrightarrow> \<exists>e'. read_lines stack_map lines = Inl e'"
proof (induction lines arbitrary: stack_map)
  case Nil
  then show ?case by simp
next
  case (Cons line rest)
  then show ?case
    by (cases "get_sample_count line") (auto simp: add_line_unfold)
qed


subsection \<open>What the aggregator builds\<close>

lemma map_result_append:
  "map_result f (xs @ ys) =
     bind_result (map_result f xs) (\<lambda>as. bind_result (map_result f ys) (\<lambda>bs. Inr (as @ bs)))"
proof (induction xs)
  case Nil
  show ?case by (cases "map_result f ys") simp_all
next
  case (Cons x xs)
  show ?case
    by (cases "f x"; cases "map_result f xs"; cases "map_result f ys") (simp_all add: Cons)
qed

lemma sample_sum_Nil [simp]: "sample_sum [] = Inr 0"
  by (simp add: sample_sum_def)

lemma sample_sum_snoc:
  "sample_sum xs = Inr a \<Longrightarrow> get_sample_count l = Inr n \<Longrightarrow> sample_sum (xs @ [l]) = Inr (a + n)"
  by (auto simp: sample_sum_def map_result_append bind_result_eq_Inr)

lemma sample_sum_single: "get_sample_count l = Inr n \<Longrightarrow> sample_sum [l] = Inr n"
  by (simp add: sample_sum_def)

lemma set_map_assign:
  "sorted_wrt (<) (map fst m) \<Longrightarrow>
   set (map_assign k v m) = insert (k, v) {t \<in> set m. fst t \<noteq> k}"
proof (induction m)
  case Nil
  then show ?case by simp
next
  case (Cons entry rest)
  then have less: "\<And>t. t \<in> set rest \<Longrightarrow> fst entry < fst t" and
    IH: "set (map_assign k v rest) = insert (k, v) {t \<in> set rest. fst t \<noteq> k}"
    by auto
  show ?case
  proof (cases "k < fst entry")
    case True
    then have "fst t \<noteq> k" if "t \<in> set (entry # rest)" for t
      using that less[of t] by auto
    with True show ?thesis by auto
  next
    case False
    show ?thesis
    proof (cases "k = fst entry")
      case True
      then have "fst t \<noteq> k" if "t \<in> set rest" for t
        using that less[of t] by auto
      with True show ?thesis by auto
    next
      case ne: False
      with False IH show ?thesis by auto
    qed
  qed
qed

lemma sorted_map_assign:
  "sorted_wrt (<) (map fst m) \<Longrightarrow> sorted_wrt (<) (map fst (map_assign k v m))"
proof (induction m)
  case Nil
  then show ?case by simp
next
  case (Cons entry rest)
  then have less: "\<And>t. t \<in> set rest \<Longrightarrow> fst entry < fst t"
    and sorted: "sorted_wrt (<) (map fst rest)"
    and IH: "sorted_wrt (<) (map fst (map_assign k v rest))"
    by auto
  show ?case
  proof (cases "k < fst entry")
    case True
    then have "k < fst t" if "t \<in> set rest" for t
      using less[OF that] by simp
    with True Cons.prems show ?thesis by auto
  next
    case False
    show ?thesis
    proof (cases "k = fst entry")
      case True
      with Cons.prems show ?thesis by auto
    next
      case ne: False
      with False have "fst entry < k" by simp
      with False ne IH less show ?thesis
        by (auto simp: set_map_assign[OF sorted])
    qed
  qed
qed

lemma map_of_sorted_Some:
  fixes m :: stack_map
  shows "sorted_wrt (<) (map fst m) \<Longrightarrow> map_of m k = Some v \<longleftrightarrow> (k, v) \<in> set m"
proof -
  assume "sorted_wrt (<) (map fst m)"
  then have "distinct (map fst m)" by (rule strict_sorted_iff[THEN iffD1, THEN conjunct2])
  then show ?thesis by (rule map_of_eq_Some_iff)
qed

lemma map_of_None_keys: "map_of m k = None \<longleftrightarrow> k \<notin> fst ` set m"
  by (simp add: map_of_eq_None_iff)

lemma aggregates_Nil: "aggregates [] []"
  by (simp add: aggregates_def)

lemma aggregates_add_line:
  assumes agg: "aggregates m ls" and add: "add_line m l = Inr m'"
  shows "aggregates m' (ls @ [l])"
proof -
  let ?k = "lowest_frame l"
  from add obtain n where n: "get_sample_count l = Inr n"
    and m': "m' = map_assign ?k
              (case map_of m ?k of
                 Some current_stack \<Rightarrow> (fst current_stack + n, snd current_stack @ [l])
               | None \<Rightarrow> (n, [l])) m"
    by (auto simp: add_line_unfold bind_result_eq_Inr)
  from agg have sorted: "sorted_wrt (<) (map fst m)"
    and keys: "fst ` set m = lowest_frame ` set ls"
    and groups: "\<And>t. t \<in> set m \<Longrightarrow> snd (snd t) = filter (\<lambda>l. lowest_frame l = fst t) ls"
       "\<And>t. t \<in> set m \<Longrightarrow> sample_sum (snd (snd t)) = Inr (fst (snd t))"
    by (auto simp: aggregates_def)
  define v where "v = (case map_of m ?k of
                 Some current_stack \<Rightarrow> (fst current_stack + n, snd current_stack @ [l])
               | None \<Rightarrow> (n, [l]))"
  have set_m': "set m' = insert (?k, v) {t \<in> set m. fst t \<noteq> ?k}"
    unfolding m' v_def[symmetric] by (rule set_map_assign[OF sorted])
  have vv: "snd v = filter (\<lambda>x. lowest_frame x = ?k) (ls @ [l]) \<and> sample_sum (snd v) = Inr (fst v)"
  proof (cases "map_of m ?k")
    case None
    then have "?k \<notin> lowest_frame ` set ls" using keys by (simp add: map_of_None_keys)
    then have "filter (\<lambda>x. lowest_frame x = ?k) ls = []"
      by (auto simp: filter_empty_conv image_iff)
    with None n show ?thesis by (simp add: v_def sample_sum_single)
  next
    case (Some cur)
    then have "(?k, cur) \<in> set m" using sorted by (simp add: map_of_sorted_Some)
    from groups[OF this] have "snd cur = filter (\<lambda>x. lowest_frame x = ?k) ls"
      and "sample_sum (snd cur) = Inr (fst cur)" by simp_all
    with Some sample_sum_snoc[OF this(2) n] show ?thesis by (simp add: v_def)
  qed
  have v: "snd v = filter (\<lambda>x. lowest_frame x = ?k) (ls @ [l])" "sample_sum (snd v) = Inr (fst v)"
    using vv by (rule conjunct1, rule conjunct2)
  have A: "sorted_wrt (<) (map fst m')"
    unfolding m' by (rule sorted_map_assign[OF sorted])
  have B: "fst ` set m' = lowest_frame ` set (ls @ [l])"
  proof -
    have "fst ` {t \<in> set m. fst t \<noteq> ?k} = fst ` set m - {?k}" by force
    then have "fst ` set m' = insert ?k (fst ` set m)" by (auto simp: set_m')
    with keys show ?thesis by simp
  qed
  have C: "snd (snd t) = filter (\<lambda>x. lowest_frame x = fst t) (ls @ [l])
          \<and> sample_sum (snd (snd t)) = Inr (fst (snd t))" if "t \<in> set m'" for t
  proof (cases "t = (?k, v)")
    case True
    then have "fst t = ?k" "snd t = v" by simp_all
    with v show ?thesis by simp
  next
    case False
    with that have t: "t \<in> set m" "fst t \<noteq> ?k" by (auto simp: set_m')
    then have "filter (\<lambda>x. lowest_frame x = fst t) (ls @ [l]) = filter (\<lambda>x. lowest_frame x = fst t) ls"
      by auto
    with groups[OF t(1)] show ?thesis by simp
  qed
  show ?thesis unfolding aggregates_def
  proof (intro conjI ballI)
    show "sorted_wrt (<) (map fst m')" by (rule A)
    show "fst ` set m' = lowest_frame ` set (ls @ [l])" by (rule B)
    show "snd (snd t) = filter (\<lambda>x. lowest_frame x = fst t) (ls @ [l])" if "t \<in> set m'" for t
      using C[OF that] by (rule conjunct1)
    show "sample_sum (snd (snd t)) = Inr (fst (snd t))" if "t \<in> set m'" for t
      using C[OF that] by (rule conjunct2)
  qed
qed

lemma aggregates_read_lines:
  "aggregates m ls \<Longrightarrow> read_lines m rest = Inr m' \<Longrightarrow> aggregates m' (ls @ rest)"
proof (induction rest arbitrary: m ls)
  case Nil
  then show ?case by simp
next
  case (Cons l rest)
  from Cons.prems(2) obtain m1 where m1: "add_line m l = Inr m1" and r: "read_lines m1 rest = Inr m'"
    by (auto simp: bind_result_eq_Inr)
  from aggregates_add_line[OF Cons.prems(1) m1] have "aggregates m1 (ls @ [l])" .
  from Cons.IH[OF this r] show ?case by simp
qed

lemma aggregates_build:
  "build_stack_map (Some lines) = Inr m \<Longrightarrow> aggregates m lines"
  using aggregates_read_lines[OF aggregates_Nil, of lines m]
  by (simp add: build_stack_map_def)

subsection \<open>The truncator\<close>

lemma rfind_Some: "rfind s c pos = Some p \<Longrightarrow> p < length s \<and> s ! p = c"
proof (cases pos)
  case None
  assume "rfind s c pos = Some p"
  with None show ?thesis by (auto dest: find_last_of_Some)
next
  case (Some q)
  assume "rfind s c pos = Some p"
  with Some have "find_last_of (take (Suc q) s) c = Some p" by simp
  from find_last_of_Some[OF this] show ?thesis by auto
qed

lemma shrink_loop_Some:
  "shrink_loop n s cur = Some p \<Longrightarrow> cur = Some p \<or> (p < length s \<and> s ! p = CHR '';'')"
proof (induction n s cur rule: shrink_loop.induct)
  case (1 stack current_position)
  then show ?case by simp
next
  case (2 n stack)
  then show ?case by simp
next
  case (3 n stack q)
  from "3.prems" have "shrink_loop n stack (rfind stack CHR '';'' (minus_one q)) = Some p" by simp
  from "3.IH"[OF this] show ?case by (auto dest: rfind_Some)
qed

lemma shrink_loop_first:
  "0 < n \<Longrightarrow> shrink_loop n s (Some (length s)) = Some p \<Longrightarrow> p < length s \<and> s ! p = CHR '';''"
proof -
  assume "0 < n" and *: "shrink_loop n s (Some (length s)) = Some p"
  then obtain k where "n = Suc k" by (cases n) auto
  with * have "shrink_loop k s (rfind s CHR '';'' (minus_one (length s))) = Some p" by simp
  from shrink_loop_Some[OF this] show ?thesis by (auto dest: rfind_Some)
qed

lemma shrink_stack_total:
  "0 < stack_limit \<Longrightarrow> shrink_stack stack_limit stack = Inr (cut_line stack_limit stack)"
  by (cases "shrink_loop stack_limit stack (Some (length stack))")
    (auto simp: shrink_stack_def cut_line_def dest: shrink_loop_first)

lemma map_result_total: "(\<And>x. x \<in> set xs \<Longrightarrow> f x = Inr (g x)) \<Longrightarrow> map_result f xs = Inr (map g xs)"
  by (induction xs) simp_all

lemma shrink_to_stack_limit_total:
  "shrink_to_stack_limit stacks_map stack_limit =
     Inr (map (\<lambda>stack_list. (fst stack_list, map (cut_line stack_limit) (snd stack_list))) stacks_map)"
proof (cases "stack_limit = 0")
  case True
  then have "cut_line stack_limit = (\<lambda>s. s)" by (auto simp: cut_line_def)
  with True show ?thesis by (simp add: shrink_to_stack_limit_def)
next
  case False
  then have "map_result (shrink_stack stack_limit) stacks = Inr (map (cut_line stack_limit) stacks)" for stacks
    by (intro map_result_total shrink_stack_total) simp
  with False show ?thesis
    by (simp add: shrink_to_stack_limit_def map_result_total)
qed

lemma cut_line_cases:
  "cut_line n s = s \<or> (\<exists>p<length s. s ! p = CHR '';'' \<and> cut_line n s = drop (Suc p) s)"
  by (cases "shrink_loop n s (Some (length s))") (auto simp: cut_line_def dest: shrink_loop_first)

subsection \<open>The filter\<close>

lemma filter_loop_Inr:
  "filter_loop keep m = Inr filtered \<Longrightarrow>
     filtered = map snd (filter (\<lambda>t. keep t = Inr True) m) \<and> (\<forall>t\<in>set m. \<exists>b. keep t = Inr b)"
proof (induction m arbitrary: filtered)
  case Nil
  then show ?case by simp
next
  case (Cons t rest)
  from Cons.prems obtain pushed tail where k: "keep t = Inr pushed"
    and r: "filter_loop keep rest = Inr tail"
    and f: "filtered = (if pushed then snd t # tail else tail)"
    by (auto simp: bind_result_eq_Inr)
  from Cons.IH[OF r] k f show ?case by auto
qed

lemma filter_loop_succeeds:
  "(\<And>t. t \<in> set m \<Longrightarrow> \<exists>b. keep t = Inr b) \<Longrightarrow>
     filter_loop keep m = Inr (map snd (filter (\<lambda>t. keep t = Inr True) m))"
proof (induction m)
  case Nil
  then show ?case by simp
next
  case (Cons t rest)
  from Cons.prems[of t] obtain b where b: "keep t = Inr b" by auto
  have "filter_loop keep rest = Inr (map snd (filter (\<lambda>t. keep t = Inr True) rest))"
    by (rule Cons.IH) (simp add: Cons.prems)
  with b show ?case by simp
qed

lemma filter_loop_Inl:
  "filter_loop keep m = Inl e \<Longrightarrow> \<exists>t\<in>set m. keep t = Inl e"
proof (induction m)
  case Nil
  then show ?case by simp
next
  case (Cons t rest)
  then show ?case by (cases "keep t"; cases "filter_loop keep rest") auto
qed

lemma filter_loop_fails:
  "t \<in> set m \<Longrightarrow> keep t = Inl e \<Longrightarrow> \<exists>e'. filter_loop keep m = Inl e'"
proof (induction m)
  case Nil
  then show ?case by simp
next
  case (Cons u rest)
  then show ?case by (cases "keep u"; cases "filter_loop keep rest") auto
qed

lemma matches_any_Inl:
  "matches_any lib frame regexes = Inl e \<longleftrightarrow>
     e = RegexError \<and> (\<exists>pre r post. regexes = pre @ r # post \<and> regex_compile lib r = None
        \<and> (\<forall>p\<in>set pre. \<exists>ex. regex_compile lib p = Some ex \<and> \<not> regex_match lib ex frame))"
proof (induction regexes)
  case Nil
  then show ?case by simp
next
  case (Cons r rest)
  show ?case
  proof (cases "regex_compile lib r")
    case None
    have "\<exists>pre r' post. r # rest = pre @ r' # post \<and> regex_compile lib r' = None
        \<and> (\<forall>p\<in>set pre. \<exists>ex. regex_compile lib p = Some ex \<and> \<not> regex_match lib ex frame)"
      using None by (intro exI[of _ "[]"] exI[of _ r] exI[of _ rest]) simp
    with None show ?thesis by auto
  next
    case (Some ex)
    show ?thesis
    proof (cases "regex_match lib ex frame")
      case True
      have "\<not> (\<exists>pre r' post. r # rest = pre @ r' # post \<and> regex_compile lib r' = None
        \<and> (\<forall>p\<in>set pre. \<exists>ex. regex_compile lib p = Some ex \<and> \<not> regex_match lib ex frame))"
      proof
        assume "\<exists>pre r' post. r # rest = pre @ r' # post \<and> regex_compile lib r' = None
        \<and> (\<forall>p\<in>set pre. \<exists>ex. regex_compile lib p = Some ex \<and> \<not> regex_match lib ex frame)"
        then obtain pre r' post where *: "r # rest = pre @ r' # post" "regex_compile lib r' = None"
          "\<forall>p\<in>set pre. \<exists>ex. regex_compile lib p = Some ex \<and> \<not> regex_match lib ex frame" by blast
        show False
        proof (cases pre)
          case Nil
          with * Some show False by simp
        next
          case (Cons a pre')
          with * have "a = r" by simp
          with Cons *(3) Some True show False by auto
        qed
      qed
      with Some True show ?thesis by simp
    next
      case False
      have "(\<exists>pre r' post. r # rest = pre @ r' # post \<and> regex_compile lib r' = None
        \<and> (\<forall>p\<in>set pre. \<exists>ex. regex_compile lib p = Some ex \<and> \<not> regex_match lib ex frame))
        \<longleftrightarrow> (\<exists>pre r' post. rest = pre @ r' # post \<and> regex_compile lib r' = None
        \<and> (\<forall>p\<in>set pre. \<exists>ex. regex_compile lib p = Some ex \<and> \<not> regex_match lib ex frame))"
        (is "?L \<longleftrightarrow> ?R")
      proof
        assume ?L
        then obtain pre r' post where *: "r # rest = pre @ r' # post" "regex_compile lib r' = None"
          "\<forall>p\<in>set pre. \<exists>ex. regex_compile lib p = Some ex \<and> \<not> regex_match lib ex frame" by blast
        show ?R
        proof (cases pre)
          case Nil
          with * Some show ?thesis by simp
        next
          case (Cons a pre')
          with * have "rest = pre' @ r' # post" "\<forall>p\<in>set pre'. \<exists>ex. regex_compile lib p = Some ex \<and> \<not> regex_match lib ex frame"
            by simp_all
          with *(2) show ?thesis by blast
        qed
      next
        assume ?R
        then obtain pre r' post where *: "rest = pre @ r' # post" "regex_compile lib r' = None"
          "\<forall>p\<in>set pre. \<exists>ex. regex_compile lib p = Some ex \<and> \<not> regex_match lib ex frame" by blast
        have "r # rest = (r # pre) @ r' # post" using * by simp
        moreover have "\<forall>p\<in>set (r # pre). \<exists>ex. regex_compile lib p = Some ex \<and> \<not> regex_match lib ex frame"
          using * Some False by simp
        ultimately show ?L using *(2) by blast
      qed
      with Some False Cons.IH show ?thesis by simp
    qed
  qed
qed

subsection \<open>Groups of the aggregator in the filter\<close>

lemma aggregates_group:
  assumes "aggregates m ls" and "t \<in> set m"
  shows "snd (snd t) = filter (\<lambda>l. lowest_frame l = fst t) ls"
    and "snd (snd t) \<noteq> []"
    and "lowest_frame (hd (snd (snd t))) = fst t"
    and "sample_sum (snd (snd t)) = Inr (fst (snd t))"
proof -
  from assms show 1: "snd (snd t) = filter (\<lambda>l. lowest_frame l = fst t) ls"
    and "sample_sum (snd (snd t)) = Inr (fst (snd t))"
    by (auto simp: aggregates_def)
  from assms have "fst t \<in> lowest_frame ` set ls"
    unfolding aggregates_def by blast
  then show 2: "snd (snd t) \<noteq> []"
    unfolding 1 by (auto simp: filter_empty_conv)
  then have "hd (snd (snd t)) \<in> set (filter (\<lambda>l. lowest_frame l = fst t) ls)"
    unfolding 1 by (rule hd_in_set)
  then show "lowest_frame (hd (snd (snd t))) = fst t" by simp
qed

lemma keeps_group:
  assumes "snd (snd t) \<noteq> []" and "lowest_frame (hd (snd (snd t))) = fst t"
  shows "keeps lib total_samples cutoff regexes t =
    (if above_cutoff (fst (snd t)) total_samples cutoff
     then (if regexes = [] then Inr True else matches_any lib (fst t) regexes)
     else Inr False)"
  using assms by (cases "snd (snd t)") (simp_all add: keeps_def get_lowest_stack_total)

lemma keeps_error:
  assumes "snd (snd t) \<noteq> []" and "lowest_frame (hd (snd (snd t))) = fst t"
    and "keeps lib total_samples cutoff regexes t = Inl e"
  shows "e = RegexError"
  using assms(3) unfolding keeps_group[OF assms(1,2)]
  by (auto simp: matches_any_Inl split: if_splits)

lemma filter_stack_kept:
  assumes "filter_stack lib m cutoff regexes = Inr filtered"
  shows "filtered = map snd (filter (\<lambda>t. keeps lib (total_samples_of m) cutoff regexes t = Inr True) m)"
  using filter_loop_Inr[OF assms[unfolded filter_stack_def]] by simp

lemma sorted_wrt_filter_keys:
  "sorted_wrt (<) (map fst m) \<Longrightarrow> sorted_wrt (<) (map fst (filter P m))"
  by (induction m) auto

lemma run_stages:
  "run lib (Some lines) writable cutoff stack_limit regexes = Inr written \<longleftrightarrow>
     (\<exists>m filtered. build_stack_map (Some lines) = Inr m
        \<and> filter_stack lib m cutoff regexes = Inr filtered
        \<and> writable
        \<and> written = concat (map (\<lambda>g. map (cut_line stack_limit) (snd g)) filtered))"
  by (auto simp: run_def bind_result_eq_Inr shrink_to_stack_limit_total
      write_filtered_stack_to_file_def comp_def)

subsection \<open>Counts of the lines that the truncator has cut\<close>

lemma count_token_after_space:
  assumes "CHR '' '' \<notin> set token"
  shows "count_token (xs @ CHR '' '' # token) = token"
proof -
  have "takeWhile (\<lambda>c. c \<noteq> CHR '' '') (rev token @ CHR '' '' # rev xs)
      = takeWhile (\<lambda>c. c \<noteq> CHR '' '') (rev token)"
    by (rule takeWhile_tail) simp
  also have "\<forall>c\<in>set (rev token). c \<noteq> CHR '' ''" using assms by auto
  then have "takeWhile (\<lambda>c. c \<noteq> CHR '' '') (rev token) = rev token"
    by (rule takeWhile_eq_all_conv[THEN iffD2])
  finally have "rev (takeWhile (\<lambda>c. c \<noteq> CHR '' '') (rev token @ CHR '' '' # rev xs)) = token"
    by (simp only: rev_rev_ident)
  then show ?thesis unfolding count_token_def by (simp only: rev_append rev.simps append.simps append_assoc)
qed

lemma count_token_no_space: "CHR '' '' \<notin> set (count_token line)"
  by (auto simp: count_token_def dest: set_takeWhileD)

lemma count_token_whole: "CHR '' '' \<notin> set line \<Longrightarrow> count_token line = line"
proof -
  assume "CHR '' '' \<notin> set line"
  then have "\<forall>c\<in>set (rev line). c \<noteq> CHR '' ''" by auto
  then have "takeWhile (\<lambda>c. c \<noteq> CHR '' '') (rev line) = rev line"
    by (rule takeWhile_eq_all_conv[THEN iffD2])
  then show ?thesis unfolding count_token_def by (simp only: rev_rev_ident)
qed

lemma line_split:
  assumes "CHR '' '' \<in> set line"
  obtains front where "line = front @ CHR '' '' # count_token line"
proof -
  from assms obtain i where i: "find_last_of line CHR '' '' = Some i"
    using find_last_of_None[of line "CHR '' ''"] by (cases "find_last_of line CHR '' ''") auto
  have "line = take i line @ drop i line" by simp
  also have "drop i line = CHR '' '' # count_token line" using i by (rule drop_last_space)
  finally show ?thesis by (rule that)
qed

lemma get_sample_count_cut_line:
  assumes "CHR '';'' \<notin> set (count_token line)"
  shows "get_sample_count (cut_line n line) = get_sample_count line"
proof -
  consider "cut_line n line = line"
    | p where "p < length line" "line ! p = CHR '';''" "cut_line n line = drop (Suc p) line"
    using cut_line_cases[of n line] by blast
  then show ?thesis
  proof cases
    case 1
    then show ?thesis by simp
  next
    case 2
    have space: "CHR '' '' \<in> set line"
    proof (rule ccontr)
      assume "CHR '' '' \<notin> set line"
      then have "count_token line = line" by (rule count_token_whole)
      moreover have "line ! p \<in> set line" using 2(1) by (rule nth_mem)
      ultimately show False using assms 2(2) by simp
    qed
    then obtain front where front: "line = front @ CHR '' '' # count_token line"
      by (rule line_split)
    have "p < length front"
    proof (rule ccontr)
      assume "\<not> p < length front"
      then have "line ! p = (CHR '' '' # count_token line) ! (p - length front)"
        by (subst front) (simp add: nth_append)
      moreover have "p - length front < length (CHR '' '' # count_token line)"
        using 2(1) \<open>\<not> p < length front\<close> by (subst (asm) front) auto
      ultimately have "line ! p \<in> set (CHR '' '' # count_token line)"
        using nth_mem[of "p - length front" "CHR '' '' # count_token line"] by simp
      with 2(2) assms show False by auto
    qed
    then have "drop (Suc p) line = drop (Suc p) front @ CHR '' '' # count_token line"
      by (subst front) simp
    with 2(3) have cut: "cut_line n line = drop (Suc p) front @ CHR '' '' # count_token line"
      by simp
    have "count_token (cut_line n line) = count_token line"
      unfolding cut by (rule count_token_after_space) (rule count_token_no_space)
    moreover have "CHR '' '' \<in> set (cut_line n line)" unfolding cut by simp
    ultimately show ?thesis using space by (simp add: get_sample_count_token)
  qed
qed

lemma map_result_cong:
  "(\<And>x. x \<in> set xs \<Longrightarrow> f x = g x) \<Longrightarrow> map_result f xs = map_result g xs"
  by (induction xs) simp_all

lemma map_result_map: "map_result f (map h xs) = map_result (\<lambda>x. f (h x)) xs"
  by (induction xs) simp_all

lemma sample_sum_cut_lines:
  assumes "\<And>l. l \<in> set ls \<Longrightarrow> CHR '';'' \<notin> set (count_token l)"
  shows "sample_sum (map (cut_line n) ls) = sample_sum ls"
proof -
  have "map_result get_sample_count (map (cut_line n) ls) = map_result get_sample_count ls"
    unfolding map_result_map
    by (rule map_result_cong) (simp add: get_sample_count_cut_line assms)
  then show ?thesis by (simp add: sample_sum_def)
qed

subsection \<open>A total of zero\<close>

lemma total_samples_of_sum:
  "foldl (\<lambda>state element. state + fst (snd element)) a m = a + sum_list (map (\<lambda>t. fst (snd t)) m)"
  by (induction m arbitrary: a) (simp_all add: add.assoc)

lemma total_samples_of_sum_list:
  "total_samples_of m = sum_list (map (\<lambda>t. fst (snd t)) m)"
  by (simp add: total_samples_of_def total_samples_of_sum)

lemma to_double_0: "to_double 0 = Finite 0"
  by (simp add: to_double_def round_to_double_def)

lemma above_cutoff_0_0: "\<not> above_cutoff 0 0 cutoff"
  by (simp add: above_cutoff_def to_double_0)

section \<open>The claims\<close>

text \<open>
  C8. A line whose count token does not parse as an integer (no digit follows the token's
  leading white space and optional sign, so that \<^verbatim>\<open>atoi\<close> can convert nothing) gets the
  count zero, and no error.
\<close>

theorem unparsable_count_is_zero:
  assumes "CHR '' '' \<in> set line" and "\<not> starts_with_number (count_token line)"
  shows "get_sample_count line = Inr 0"
  using assms by (simp add: get_sample_count_token atoi_no_number)

theorem unparsable_count_is_zero_witness:
  "CHR '' '' \<in> set ''main;foo;bar many'' \<and> \<not> starts_with_number (count_token ''main;foo;bar many'')
   \<and> get_sample_count ''main;foo;bar many'' = Inr 0"
proof -
  have 1: "CHR '' '' \<in> set ''main;foo;bar many''" by simp
  have 2: "\<not> starts_with_number (count_token ''main;foo;bar many'')" by code_simp
  from unparsable_count_is_zero[OF 1 2] 1 2 show ?thesis by blast
qed

text \<open>
  C10. A line without a space has no count: \<^verbatim>\<open>substr\<close> is called at \<^verbatim>\<open>npos\<close> and throws
  \<^verbatim>\<open>std::out_of_range\<close>. A file with such a line ends the run in the handler of
  \<^verbatim>\<open>main\<close>, with exit status 1 and nothing written (provided no count of the file is
  outside the range of \<^verbatim>\<open>int\<close>, where \<^verbatim>\<open>atoi\<close> is undefined).
\<close>

theorem line_without_space_aborts:
  assumes "CHR '' '' \<notin> set line" and "line \<in> set lines"
    and "\<forall>l\<in>set lines. get_sample_count l \<noteq> Inl UndefinedBehaviour"
  shows "get_sample_count line = Inl OutOfRange
    \<and> run lib (Some lines) writable cutoff_percentage stack_limit regexes_to_show = Inl OutOfRange
    \<and> exit_status (run lib (Some lines) writable cutoff_percentage stack_limit regexes_to_show) = Some 1"
proof -
  have c: "get_sample_count line = Inl OutOfRange"
    using assms(1) by (rule get_sample_count_no_space)
  with assms(2) obtain e where e: "read_lines [] lines = Inl e"
    using read_lines_fails by blast
  then obtain l where "l \<in> set lines" "get_sample_count l = Inl e"
    using read_lines_error by blast
  with assms(3) have "e = OutOfRange"
    using get_sample_count_error by fastforce
  with e c show ?thesis by (simp add: run_def build_stack_map_def)
qed

theorem line_without_space_aborts_witness:
  "CHR '' '' \<notin> set ''main;foo'' \<and> get_sample_count ''main;foo'' = Inl OutOfRange
   \<and> run literal_patterns (Some [''main;bar 3'', ''main;foo'', ''main;qux 5'']) True
        (Finite (1 / 2)) 0 [] = Inl OutOfRange
   \<and> exit_status (run literal_patterns (Some [''main;bar 3'', ''main;foo'', ''main;qux 5'']) True
        (Finite (1 / 2)) 0 []) = Some 1"
proof -
  have 1: "CHR '' '' \<notin> set ''main;foo''" by simp
  have 2: "''main;foo'' \<in> set [''main;bar 3'', ''main;foo'', ''main;qux 5'']" by simp
  have 3: "\<forall>l\<in>set [''main;bar 3'', ''main;foo'', ''main;qux 5''].
      get_sample_count l \<noteq> Inl UndefinedBehaviour"
    by code_simp
  from line_without_space_aborts[OF 1 2 3] 1 show ?thesis by blast
qed

text \<open>
  C5. With a stack limit of zero the truncator returns the groups it is given: every group,
  every line and every call path unchanged.
\<close>

theorem shrink_to_stack_limit_zero:
  "shrink_to_stack_limit stacks_map 0 = Inr stacks_map"
  by (simp add: shrink_to_stack_limit_def)

theorem shrink_to_stack_limit_zero_witness:
  "shrink_to_stack_limit [(15, [''main;foo;bar 10'', ''main;bar 5'']), (85, [''main;qux 85''])] 0
     = Inr [(15, [''main;foo;bar 10'', ''main;bar 5'']), (85, [''main;qux 85''])]"
  by (rule shrink_to_stack_limit_zero)

text \<open>
  C4, where the code fails the claim. The line \<^verbatim>\<open>;a 5\<close> has one delimiter, fewer than a
  stack limit of two, and yet it is changed: the first search finds the delimiter at index
  \<open>0\<close>, the next one starts at \<^verbatim>\<open>0 - 1\<close>, which is \<^verbatim>\<open>npos\<close>, searches the whole line again and
  finds the same delimiter, and the line is cut after it.
\<close>

theorem shrink_changes_shallow_line:
  "shrink_to_stack_limit [(5, ['';a 5''])] 2 = Inr [(5, [''a 5''])]"
  by code_simp

text \<open>
  C7. The groups that the filter keeps come in increasing lexicographic order of their lowest
  frame, each group holds the lines of the file with that lowest frame in the order of the
  file, and the writer writes the lines (cut by the truncator) in that order, group after
  group.
\<close>

theorem output_order:
  assumes "run lib (Some lines) writable cutoff stack_limit regexes = Inr written"
  shows "\<exists>stack_map kept.
      build_stack_map (Some lines) = Inr stack_map
    \<and> filter_stack lib stack_map cutoff regexes = Inr (map snd kept)
    \<and> sorted_wrt (<) (map fst kept)
    \<and> (\<forall>t\<in>set kept. get_lowest_stack (hd (snd (snd t))) = Inr (fst t)
          \<and> snd (snd t) = filter (\<lambda>l. get_lowest_stack l = Inr (fst t)) lines)
    \<and> written = concat (map (\<lambda>t. map (cut_line stack_limit) (snd (snd t))) kept)"
proof -
  from assms obtain m filtered where m: "build_stack_map (Some lines) = Inr m"
    and f: "filter_stack lib m cutoff regexes = Inr filtered"
    and w: "written = concat (map (\<lambda>g. map (cut_line stack_limit) (snd g)) filtered)"
    unfolding run_stages by blast
  define kept where "kept = filter (\<lambda>t. keeps lib (total_samples_of m) cutoff regexes t = Inr True) m"
  have agg: "aggregates m lines" using m by (rule aggregates_build)
  have filtered: "filtered = map snd kept"
    unfolding kept_def using f by (rule filter_stack_kept)
  have "sorted_wrt (<) (map fst m)" using agg by (simp add: aggregates_def)
  then have sorted: "sorted_wrt (<) (map fst kept)"
    unfolding kept_def by (rule sorted_wrt_filter_keys)
  have groups: "get_lowest_stack (hd (snd (snd t))) = Inr (fst t)
          \<and> snd (snd t) = filter (\<lambda>l. get_lowest_stack l = Inr (fst t)) lines" if "t \<in> set kept" for t
  proof -
    from that have "t \<in> set m" by (simp add: kept_def)
    from aggregates_group(1,3)[OF agg this] show ?thesis
      by (simp add: get_lowest_stack_total)
  qed
  have "written = concat (map (\<lambda>t. map (cut_line stack_limit) (snd (snd t))) kept)"
    unfolding w filtered by (simp add: comp_def)
  with m f filtered sorted groups show ?thesis by blast
qed

theorem output_order_witness:
  "run literal_patterns
     (Some [''main;foo;qux 10'', ''main;foo;baz 5'', ''main;bar 85'', ''idle;qux 7'']) True
     (Finite 1) 0 []
   = Inr [''main;bar 85'', ''main;foo;baz 5'', ''main;foo;qux 10'', ''idle;qux 7'']
   \<and> (\<exists>stack_map kept.
      build_stack_map (Some [''main;foo;qux 10'', ''main;foo;baz 5'', ''main;bar 85'', ''idle;qux 7''])
        = Inr stack_map
    \<and> filter_stack literal_patterns stack_map (Finite 1) [] = Inr (map snd kept)
    \<and> sorted_wrt (<) (map fst kept)
    \<and> (\<forall>t\<in>set kept. get_lowest_stack (hd (snd (snd t))) = Inr (fst t)
          \<and> snd (snd t) = filter (\<lambda>l. get_lowest_stack l = Inr (fst t))
               [''main;foo;qux 10'', ''main;foo;baz 5'', ''main;bar 85'', ''idle;qux 7''])
    \<and> [''main;bar 85'', ''main;foo;baz 5'', ''main;foo;qux 10'', ''idle;qux 7'']
        = concat (map (\<lambda>t. map (cut_line 0) (snd (snd t))) kept))"
proof -
  have h: "run literal_patterns
     (Some [''main;foo;qux 10'', ''main;foo;baz 5'', ''main;bar 85'', ''idle;qux 7'']) True
     (Finite 1) 0 []
   = Inr [''main;bar 85'', ''main;foo;baz 5'', ''main;foo;qux 10'', ''idle;qux 7'']"
    by code_simp
  from output_order[OF h] h show ?thesis by (rule conjI[rotated])
qed

text \<open>
  C9, as amended. When no count token of the file holds a \<^verbatim>\<open>;\<close>, the count of every group is
  the sum (in \<^verbatim>\<open>size_t\<close>) of the counts of its lines, after the aggregator, after the filter
  and after the truncator; and for every group that is kept, the counts of the lines that
  are written sum up to the counts of the lines of the file with that lowest frame.
\<close>

theorem group_count_is_sum_of_members:
  assumes "build_stack_map (Some lines) = Inr stack_map"
    and "filter_stack lib stack_map cutoff regexes = Inr filtered"
    and "shrink_to_stack_limit filtered stack_limit = Inr stacks"
    and "\<forall>l\<in>set lines. CHR '';'' \<notin> set (count_token l)"
  shows "(\<forall>t\<in>set stack_map. sample_sum (snd (snd t)) = Inr (fst (snd t)))
    \<and> (\<forall>g\<in>set filtered. sample_sum (snd g) = Inr (fst g))
    \<and> (\<forall>g\<in>set stacks. sample_sum (snd g) = Inr (fst g))
    \<and> (\<exists>kept. set kept \<subseteq> set stack_map
          \<and> stacks = map (\<lambda>t. (fst (snd t), map (cut_line stack_limit) (snd (snd t)))) kept
          \<and> (\<forall>t\<in>set kept.
                sample_sum (map (cut_line stack_limit) (snd (snd t)))
                  = sample_sum (filter (\<lambda>l. get_lowest_stack l = Inr (fst t)) lines)))"
proof -
  define kept where
    "kept = filter (\<lambda>t. keeps lib (total_samples_of stack_map) cutoff regexes t = Inr True) stack_map"
  have agg: "aggregates stack_map lines" using assms(1) by (rule aggregates_build)
  have filtered: "filtered = map snd kept"
    unfolding kept_def using assms(2) by (rule filter_stack_kept)
  have stacks: "stacks = map (\<lambda>t. (fst (snd t), map (cut_line stack_limit) (snd (snd t)))) kept"
    using assms(3) unfolding shrink_to_stack_limit_total filtered by (simp add: comp_def)
  have sub: "set kept \<subseteq> set stack_map" by (auto simp: kept_def)
  have members: "snd (snd t) = filter (\<lambda>l. get_lowest_stack l = Inr (fst t)) lines"
    and sum: "sample_sum (snd (snd t)) = Inr (fst (snd t))"
    and cut: "sample_sum (map (cut_line stack_limit) (snd (snd t))) = sample_sum (snd (snd t))"
    if "t \<in> set stack_map" for t
  proof -
    from aggregates_group(1)[OF agg that]
    show m: "snd (snd t) = filter (\<lambda>l. get_lowest_stack l = Inr (fst t)) lines"
      by (simp add: get_lowest_stack_total)
    show "sample_sum (snd (snd t)) = Inr (fst (snd t))"
      using agg that by (rule aggregates_group(4))
    have "CHR '';'' \<notin> set (count_token l)" if "l \<in> set (snd (snd t))" for l
      using that assms(4) unfolding m by simp
    then show "sample_sum (map (cut_line stack_limit) (snd (snd t))) = sample_sum (snd (snd t))"
      by (rule sample_sum_cut_lines)
  qed
  have 1: "\<forall>t\<in>set stack_map. sample_sum (snd (snd t)) = Inr (fst (snd t))"
    using sum by blast
  have 2: "\<forall>g\<in>set filtered. sample_sum (snd g) = Inr (fst g)"
    unfolding filtered using sum sub by auto
  have 3: "\<forall>g\<in>set stacks. sample_sum (snd g) = Inr (fst g)"
    unfolding stacks using sum cut sub by auto
  have 4: "\<forall>t\<in>set kept. sample_sum (map (cut_line stack_limit) (snd (snd t)))
                  = sample_sum (filter (\<lambda>l. get_lowest_stack l = Inr (fst t)) lines)"
  proof
    fix t assume "t \<in> set kept"
    with sub have "t \<in> set stack_map" by blast
    from cut[OF this] members[OF this] show "sample_sum (map (cut_line stack_limit) (snd (snd t)))
                  = sample_sum (filter (\<lambda>l. get_lowest_stack l = Inr (fst t)) lines)" by simp
  qed
  from 1 2 3 4 sub stacks show ?thesis by blast
qed

theorem group_count_is_sum_of_members_witness:
  "build_stack_map (Some [''main;foo;bar 10'', ''idle;bar 5'', ''main;qux 85''])
     = Inr [(''bar'', 15, [''main;foo;bar 10'', ''idle;bar 5'']), (''qux'', 85, [''main;qux 85''])]
   \<and> filter_stack literal_patterns
         [(''bar'', 15, [''main;foo;bar 10'', ''idle;bar 5'']), (''qux'', 85, [''main;qux 85''])]
         (Finite 1) []
     = Inr [(15, [''main;foo;bar 10'', ''idle;bar 5'']), (85, [''main;qux 85''])]
   \<and> shrink_to_stack_limit [(15, [''main;foo;bar 10'', ''idle;bar 5'']), (85, [''main;qux 85''])] 1
     = Inr [(15, [''bar 10'', ''bar 5'']), (85, [''qux 85''])]
   \<and> sample_sum [''bar 10'', ''bar 5''] = Inr 15"
proof -
  have 1: "build_stack_map (Some [''main;foo;bar 10'', ''idle;bar 5'', ''main;qux 85''])
     = Inr [(''bar'', 15, [''main;foo;bar 10'', ''idle;bar 5'']), (''qux'', 85, [''main;qux 85''])]"
    by code_simp
  have 2: "filter_stack literal_patterns
         [(''bar'', 15, [''main;foo;bar 10'', ''idle;bar 5'']), (''qux'', 85, [''main;qux 85''])]
         (Finite 1) []
     = Inr [(15, [''main;foo;bar 10'', ''idle;bar 5'']), (85, [''main;qux 85''])]"
    by code_simp
  have 3: "shrink_to_stack_limit [(15, [''main;foo;bar 10'', ''idle;bar 5'']), (85, [''main;qux 85''])] 1
     = Inr [(15, [''bar 10'', ''bar 5'']), (85, [''qux 85''])]"
    by code_simp
  have 4: "\<forall>l\<in>set [''main;foo;bar 10'', ''idle;bar 5'', ''main;qux 85'']. CHR '';'' \<notin> set (count_token l)"
    by code_simp
  from group_count_is_sum_of_members[OF 1 2 3 4]
  have "\<forall>g\<in>set [(15, [''bar 10'', ''bar 5'']), (85, [''qux 85''])]. sample_sum (snd g) = Inr (fst g)"
    by blast
  then have "sample_sum [''bar 10'', ''bar 5''] = Inr 15" by simp
  with 1 2 3 show ?thesis by blast
qed

theorem cut_count_token_counterexample:
  "build_stack_map (Some [''main;foo 3;4'']) = Inr [(''4'', 3, [''main;foo 3;4''])]
   \<and> filter_stack literal_patterns [(''4'', 3, [''main;foo 3;4''])] (Finite (1 / 2)) []
       = Inr [(3, [''main;foo 3;4''])]
   \<and> shrink_to_stack_limit [(3, [''main;foo 3;4''])] 1 = Inr [(3, [''4''])]
   \<and> sample_sum [''4''] = Inl OutOfRange"
proof -
  have 1: "build_stack_map (Some [''main;foo 3;4'']) = Inr [(''4'', 3, [''main;foo 3;4''])]"
    by code_simp
  have 2: "filter_stack literal_patterns [(''4'', 3, [''main;foo 3;4''])] (Finite (1 / 2)) []
       = Inr [(3, [''main;foo 3;4''])]"
    by code_simp
  have 3: "shrink_to_stack_limit [(3, [''main;foo 3;4''])] 1 = Inr [(3, [''4''])]"
    by code_simp
  have 4: "sample_sum [''4''] = Inl OutOfRange"
    by code_simp
  from 1 2 3 4 show ?thesis by blast
qed

text \<open>
  C2, as amended. When every group has the count zero (so that the total is zero), the filter
  reports no error: it divides zero by zero, the comparison with the result, which is not a
  number, is false for every group, and the filter returns no group.
\<close>

theorem zero_total_gives_no_groups:
  assumes "\<forall>t\<in>set stack_map. fst (snd t) = 0"
  shows "total_samples_of stack_map = 0
    \<and> filter_stack lib stack_map cutoff regexes = Inr []"
proof -
  have "sum_list (map (\<lambda>t. fst (snd t)) stack_map) = 0"
    using assms by (induction stack_map) simp_all
  then have total: "total_samples_of stack_map = 0"
    by (simp only: total_samples_of_sum_list)
  have k: "keeps lib 0 cutoff regexes t = Inr False" if "t \<in> set stack_map" for t
    using that assms by (simp add: keeps_def above_cutoff_0_0)
  then have "filter_loop (keeps lib 0 cutoff regexes) stack_map
      = Inr (map snd (filter (\<lambda>t. keeps lib 0 cutoff regexes t = Inr True) stack_map))"
    by (intro filter_loop_succeeds) blast
  also have "filter (\<lambda>t. keeps lib 0 cutoff regexes t = Inr True) stack_map = []"
    using k by (simp add: filter_empty_conv)
  finally show ?thesis using total by (simp add: filter_stack_def)
qed

theorem zero_total_gives_no_groups_witness:
  "fst (snd (''foo'', 0 :: 64 word, [''main;foo 0''])) = 0
   \<and> total_samples_of [(''foo'', 0, [''main;foo 0''])] = 0
   \<and> filter_stack literal_patterns [(''foo'', 0, [''main;foo 0''])] (Finite (1 / 2)) [''foo''] = Inr []"
proof -
  have "\<forall>t\<in>set [(''foo'', 0 :: 64 word, [''main;foo 0''])]. fst (snd t) = 0" by simp
  from zero_total_gives_no_groups[OF this] show ?thesis by simp
qed

theorem zero_total_counterexample:
  "build_stack_map (Some [''main;foo 0'', ''main;bar 0''])
     = Inr [(''bar'', 0, [''main;bar 0'']), (''foo'', 0, [''main;foo 0''])]
   \<and> total_samples_of [(''bar'', 0, [''main;bar 0'']), (''foo'', 0, [''main;foo 0''])] = 0
   \<and> filter_stack literal_patterns [(''bar'', 0, [''main;bar 0'']), (''foo'', 0, [''main;foo 0''])]
        (Finite (1 / 2)) [] = Inr []
   \<and> run literal_patterns (Some [''main;foo 0'', ''main;bar 0'']) True (Finite (1 / 2)) 0 [] = Inr []
   \<and> exit_status (run literal_patterns (Some [''main;foo 0'', ''main;bar 0'']) True
        (Finite (1 / 2)) 0 []) = Some 0"
proof -
  have 1: "build_stack_map (Some [''main;foo 0'', ''main;bar 0''])
     = Inr [(''bar'', 0, [''main;bar 0'']), (''foo'', 0, [''main;foo 0''])]"
    by code_simp
  have 2: "total_samples_of [(''bar'', 0, [''main;bar 0'']), (''foo'', 0, [''main;foo 0''])] = 0"
    by code_simp
  have 3: "filter_stack literal_patterns [(''bar'', 0, [''main;bar 0'']), (''foo'', 0, [''main;foo 0''])]
        (Finite (1 / 2)) [] = Inr []"
    by code_simp
  have 4: "run literal_patterns (Some [''main;foo 0'', ''main;bar 0'']) True (Finite (1 / 2)) 0 [] = Inr []"
    using 1 3 by (simp add: run_def shrink_to_stack_limit_def write_filtered_stack_to_file_def)
  from 1 2 3 4 show ?thesis by simp
qed

end
